theory Spec2Isabelle
  imports Complex_Main "HOL-Library.Multiset"
begin

section \<open>Data model\<close>

text \<open>
  The dataclass \<^verbatim>\<open>Keyframe\<close> has the two numeric fields \<^verbatim>\<open>frame\<close> and
  \<^verbatim>\<open>value\<close>. Numbers are modelled as exact rationals (\<^typ>\<open>rat\<close>): rounding of
  Python floats is outside the model. The field \<^verbatim>\<open>value\<close> is called \<open>val\<close> here.
\<close>

record Keyframe =
  frame :: rat
  val :: rat

text \<open>
  Python lists hold references to \<^verbatim>\<open>Keyframe\<close> objects, and \<^verbatim>\<open>addKeyframes\<close>
  updates objects that are reachable from several lists. So a list of keyframes is a
  list of references, and the objects live in a heap.
\<close>

type_synonym ref = nat

type_synonym heap = "ref \<Rightarrow> Keyframe"

datatype error = ValueError | ZeroDivisionError | TypeError | AttributeError

section \<open>findOverlap\<close>

text \<open>
  The loop \<^verbatim>\<open>for key1 in reversed(keyList1)\<close>, with the flag \<^verbatim>\<open>overlapping\<close> and
  the list \<^verbatim>\<open>overlappingKeyList\<close> as loop state; the third argument is what is left
  of \<^verbatim>\<open>reversed(keyList1)\<close>. The \<^verbatim>\<open>break\<close> ends the recursion.
\<close>

fun overlapLoop :: "heap \<Rightarrow> ref list \<Rightarrow> ref list \<Rightarrow> bool \<Rightarrow> ref list \<Rightarrow> ref list" where
  "overlapLoop h keyList2 [] overlapping overlappingKeyList = overlappingKeyList"
| "overlapLoop h keyList2 (key1 # rest) overlapping overlappingKeyList =
     (if frame (h key1) > frame (h (keyList2 ! 0))
      then overlapLoop h keyList2 rest True (overlappingKeyList @ [key1])
      else (if overlapping then overlappingKeyList @ [key1] else overlappingKeyList))"

definition findOverlap :: "heap \<Rightarrow> ref list \<Rightarrow> ref list \<Rightarrow> error + ref list" where
  "findOverlap h keyList1 keyList2 =
     (if length keyList1 = 0 \<or> length keyList2 = 0 then Inr []
      else if frame (h (keyList1 ! 0)) > frame (h (keyList2 ! 0)) then Inl ValueError
      else Inr (rev (overlapLoop h keyList2 (rev keyList1) False [])))"

section \<open>getValue\<close>

text \<open>Python's \<^verbatim>\<open>/\<close> raises \<^verbatim>\<open>ZeroDivisionError\<close> on a zero divisor.\<close>

definition truediv :: "rat \<Rightarrow> rat \<Rightarrow> error + rat" where
  "truediv a b = (if b = 0 then Inl ZeroDivisionError else Inr (a / b))"

text \<open>
  The \<^verbatim>\<open>try\<close> block of \<^verbatim>\<open>getValue\<close>: only \<^verbatim>\<open>ZeroDivisionError\<close> is caught, and
  then the slope is 0.
\<close>

definition slope :: "rat \<Rightarrow> rat \<Rightarrow> rat \<Rightarrow> rat \<Rightarrow> error + rat" where
  "slope x1 y1 x2 y2 =
     (case truediv (y2 - y1) (x2 - x1) of
        Inl ZeroDivisionError \<Rightarrow> Inr 0
      | Inl e \<Rightarrow> Inl e
      | Inr m \<Rightarrow> Inr m)"

definition getValue :: "Keyframe \<Rightarrow> Keyframe \<Rightarrow> rat \<Rightarrow> error + rat" where
  "getValue key1 key2 fr =
     (let x1 = frame key1; y1 = val key1;
          x2 = frame key2; y2 = val key2
      in case slope x1 y1 x2 y2 of
           Inl e \<Rightarrow> Inl e
         | Inr m \<Rightarrow> (let c = y1 - m * x1 in Inr ((m * fr) + c)))"

section \<open>interval\<close>

text \<open>
  The loop \<^verbatim>\<open>for i in range(len(keyList) - 1)\<close> visits the adjacent pairs
  \<^verbatim>\<open>(keyList[i], keyList[i+1])\<close> from left to right and returns the first one that
  encloses the frame. When no pair does, the Python function ends without a
  \<^verbatim>\<open>return\<close> statement, so its result is \<^verbatim>\<open>None\<close> and not a tuple: this is the
  outer \<open>None\<close> of the result type. The tuple \<^verbatim>\<open>(None, None)\<close> is
  \<open>Some (None, None)\<close>.
\<close>

fun intervalLoop :: "heap \<Rightarrow> ref list \<Rightarrow> rat \<Rightarrow> (ref option \<times> ref option) option" where
  "intervalLoop h (k # k' # ks) fr =
     (if frame (h k) \<le> fr \<and> fr \<le> frame (h k') then Some (Some k, Some k')
      else intervalLoop h (k' # ks) fr)"
| "intervalLoop h ks fr = None"

definition interval :: "heap \<Rightarrow> ref list \<Rightarrow> rat \<Rightarrow> (ref option \<times> ref option) option" where
  "interval h keyList fr =
     (if length keyList = 0 then Some (None, None)
      else if frame (h (keyList ! 0)) > fr
        then Some (Some (keyList ! 0), Some (keyList ! 0))
      else if frame (h (last keyList)) < fr
        then Some (Some (last keyList), Some (last keyList))
      else intervalLoop h keyList fr)"

section \<open>addKeyframes\<close>

text \<open>
  The two interpolation loops of \<^verbatim>\<open>addKeyframes\<close> have the same body: for each key
  of one list, the interval of its frame in the other list is unpacked into two names
  (a \<^verbatim>\<open>TypeError\<close> when \<^verbatim>\<open>interval\<close> returned \<^verbatim>\<open>None\<close>), the key is skipped when
  both are \<^verbatim>\<open>None\<close>, and otherwise a new \<^verbatim>\<open>Keyframe\<close> with the interpolated value is
  appended. The new keyframes are local objects that nothing else refers to, so they
  are kept as values.
\<close>

fun interpolatedValues :: "heap \<Rightarrow> ref list \<Rightarrow> ref list \<Rightarrow> error + Keyframe list" where
  "interpolatedValues h others [] = Inr []"
| "interpolatedValues h others (key # keys) =
     (case interval h others (frame (h key)) of
        None \<Rightarrow> Inl TypeError
      | Some (None, None) \<Rightarrow> interpolatedValues h others keys
      | Some (Some inv1, Some inv2) \<Rightarrow>
          (case getValue (h inv1) (h inv2) (frame (h key)) of
             Inl e \<Rightarrow> Inl e
           | Inr v \<Rightarrow>
               (case interpolatedValues h others keys of
                  Inl e \<Rightarrow> Inl e
                | Inr rest \<Rightarrow> Inr (\<lparr>frame = frame (h key), val = v\<rparr> # rest)))
      | Some _ \<Rightarrow> Inl AttributeError)"

text \<open>The loops \<^verbatim>\<open>for key, interp in zip(..): key.value += interp.value\<close>.\<close>

fun addValues :: "(ref \<times> Keyframe) list \<Rightarrow> heap \<Rightarrow> heap" where
  "addValues [] h = h"
| "addValues ((key, interp) # rest) h =
     addValues rest (h(key := (h key)\<lparr>val := val (h key) + val interp\<rparr>))"

text \<open>
  What a call of \<^verbatim>\<open>addKeyframes\<close> can see and change: the objects, and the two list
  arguments.
\<close>

record world =
  heap :: heap
  insertedKeys :: "ref list"
  nextKeys :: "ref list"

text \<open>
  The result is the outcome (an exception, or a normal return) together with the world
  the call leaves behind. \<^verbatim>\<open>list.sort\<close> is a stable sort, as \<^const>\<open>sort_key\<close> is.
\<close>

definition addKeyframes :: "world \<Rightarrow> (error + unit) \<times> world" where
  "addKeyframes w =
     (case findOverlap (heap w) (insertedKeys w) (nextKeys w) of
        Inl e \<Rightarrow> (Inl e, w)
      | Inr keysOverlapping \<Rightarrow>
          (case interpolatedValues (heap w) keysOverlapping (nextKeys w) of
             Inl e \<Rightarrow> (Inl e, w)
           | Inr nextKeysInterpolatedValues \<Rightarrow>
               (case interpolatedValues (heap w) (nextKeys w) keysOverlapping of
                  Inl e \<Rightarrow> (Inl e, w)
                | Inr insertedKeysInterpolatedValues \<Rightarrow>
                    (let h1 = addValues (zip keysOverlapping insertedKeysInterpolatedValues) (heap w);
                         h2 = addValues (zip (nextKeys w) nextKeysInterpolatedValues) h1;
                         extended = insertedKeys w @ nextKeys w
                     in (Inr (),
                         \<lparr>heap = h2,
                          insertedKeys = sort_key (\<lambda>keyframe. frame (h2 keyframe)) extended,
                          nextKeys = nextKeys w\<rparr>)))))"

section \<open>Curves\<close>

text \<open>The samples a list of references stands for.\<close>

definition curve :: "heap \<Rightarrow> ref list \<Rightarrow> Keyframe list" where
  "curve h keys = map h keys"

text \<open>
  Building the arguments of a call from two sequences of samples, every sample a new
  object, as \<^verbatim>\<open>main\<close> does: the objects of the first list are numbered from 0, those
  of the second list follow.
\<close>

definition newWorld :: "Keyframe list \<Rightarrow> Keyframe list \<Rightarrow> world" where
  "newWorld origKeys newKeys =
     \<lparr>heap = (\<lambda>r. if r < length (origKeys @ newKeys) then (origKeys @ newKeys) ! r
                  else \<lparr>frame = 0, val = 0\<rparr>),
      insertedKeys = [0 ..< length origKeys],
      nextKeys = [length origKeys ..< length origKeys + length newKeys]\<rparr>"

definition K :: "rat \<Rightarrow> rat \<Rightarrow> Keyframe" where
  "K f v = \<lparr>frame = f, val = v\<rparr>"

text \<open>Lists of references whose frames do not decrease, and whose frames increase.\<close>

definition ascending :: "heap \<Rightarrow> ref list \<Rightarrow> bool" where
  "ascending h keys = sorted (map (\<lambda>k. frame (h k)) keys)"

definition strictlyAscending :: "heap \<Rightarrow> ref list \<Rightarrow> bool" where
  "strictlyAscending h keys = sorted_wrt (<) (map (\<lambda>k. frame (h k)) keys)"

text \<open>
  The piecewise-linear function that a sequence of samples stands for, following the
  specification's data model and not the code: linear between two neighbouring samples,
  and constant outside the samples' range, equal to the value of the nearest end. It is
  meant for non-empty sequences.
\<close>

fun curveAt :: "Keyframe list \<Rightarrow> rat \<Rightarrow> rat" where
  "curveAt [] t = 0"
| "curveAt [k] t = val k"
| "curveAt (k1 # k2 # ks) t =
     (if t \<le> frame k1 then val k1
      else if t \<le> frame k2
        then val k1 + (val k2 - val k1) * (t - frame k1) / (frame k2 - frame k1)
      else curveAt (k2 # ks) t)"

text \<open>
  The overlap in the specification's words, not the code's: the samples of the first
  list that are strictly later than the second list's first sample and, only when
  there is such a sample, the last of the other samples before them.
\<close>

definition overlapSpec :: "heap \<Rightarrow> ref list \<Rightarrow> ref list \<Rightarrow> ref list" where
  "overlapSpec h curveA curveB =
     (let later = filter (\<lambda>k. frame (h k) > frame (h (curveB ! 0))) curveA;
          notLater = filter (\<lambda>k. \<not> frame (h k) > frame (h (curveB ! 0))) curveA
      in if later = [] then [] else last notLater # later)"

text \<open>
  The keyframe that an interpolation loop appends for a key when the other list is a
  well-formed curve: the frame of the key, with the value of the other curve there.
\<close>

definition interpolated :: "heap \<Rightarrow> ref list \<Rightarrow> ref \<Rightarrow> Keyframe" where
  "interpolated h others key =
     \<lparr>frame = frame (h key), val = curveAt (map h others) (frame (h key))\<rparr>"

text \<open>The two lists that \<^verbatim>\<open>main\<close> builds, with \<^verbatim>\<open>delta = 9\<close>.\<close>

definition mainWorld :: world where
  "mainWorld = newWorld [K 0 0, K 15 5, K 18 5, K 33 0] [K 9 0, K 24 5, K 27 5, K 42 0]"

text \<open>A curve that ends at the frame where the next one starts.\<close>

definition touchingWorld :: world where
  "touchingWorld = newWorld [K 0 0, K 5 3] [K 5 2, K 10 0]"

text \<open>A next curve of a single sample, at the frame of an inserted sample.\<close>

definition singleNextWorld :: world where
  "singleNextWorld = newWorld [K 0 0, K 5 1, K 10 0] [K 5 1]"

text \<open>A first curve that starts after the second one.\<close>

definition backwardsWorld :: world where
  "backwardsWorld = newWorld [K 3 0, K 6 1] [K 1 0, K 4 2]"

text \<open>A curve merged with an empty one.\<close>

definition emptyNextWorld :: world where
  "emptyNextWorld = newWorld [K 0 0, K 5 1, K 10 0] []"

section \<open>Evaluating the examples\<close>

lemmas eval_defs = newWorld_def K_def addKeyframes_def findOverlap_def interval_def
  getValue_def slope_def truediv_def curve_def Let_def

lemma mainWorld_result:
  "fst (addKeyframes mainWorld) = Inr ()"
  "insertedKeys (snd (addKeyframes mainWorld)) = [0, 4, 1, 2, 5, 6, 3, 7]"
  "curve (heap (snd (addKeyframes mainWorld))) (insertedKeys (snd (addKeyframes mainWorld)))
     = [K 0 0, K 9 3, K 15 7, K 18 8, K 24 8, K 27 7, K 33 3, K 42 0]"
  by (simp_all add: mainWorld_def eval_defs)

lemma touchingWorld_result:
  "fst (addKeyframes touchingWorld) = Inr ()"
  "curve (heap (snd (addKeyframes touchingWorld))) (insertedKeys (snd (addKeyframes touchingWorld)))
     = [K 0 0, K 5 3, K 5 2, K 10 0]"
  by (simp_all add: touchingWorld_def eval_defs)

lemma singleNextWorld_result:
  "fst (addKeyframes singleNextWorld) = Inl TypeError"
  "interval (heap singleNextWorld) (nextKeys singleNextWorld) 5 = None"
  by (simp_all add: singleNextWorld_def eval_defs)

lemma backwardsWorld_result:
  "fst (addKeyframes backwardsWorld) = Inl ValueError"
  by (simp add: backwardsWorld_def eval_defs)

section \<open>Properties of getValue\<close>

text \<open>
  C8. For two keyframes with the same frame, the division in \<^verbatim>\<open>getValue\<close> raises
  \<^verbatim>\<open>ZeroDivisionError\<close>, the handler sets the slope to 0, and \<^verbatim>\<open>getValue\<close> raises
  nothing and returns the first keyframe's value, whatever the queried frame is.
\<close>

theorem getValue_same_frame:
  assumes "frame k1 = frame k2"
  shows "truediv (val k2 - val k1) (frame k2 - frame k1) = Inl ZeroDivisionError
    \<and> slope (frame k1) (val k1) (frame k2) (val k2) = Inr 0
    \<and> getValue k1 k2 t = Inr (val k1)"
  using assms by (simp add: truediv_def slope_def getValue_def)

theorem getValue_same_frame_witness:
  "frame (K 4 7) = frame (K 4 9)
    \<and> truediv (val (K 4 9) - val (K 4 7)) (frame (K 4 9) - frame (K 4 7)) = Inl ZeroDivisionError
    \<and> slope (frame (K 4 7)) (val (K 4 7)) (frame (K 4 9)) (val (K 4 9)) = Inr 0
    \<and> getValue (K 4 7) (K 4 9) 100 = Inr (val (K 4 7))"
  using getValue_same_frame [of "K 4 7" "K 4 9" 100] by (simp add: K_def)

section \<open>Interpolation never raises by itself\<close>

lemma getValue_total: "getValue k1 k2 t = Inr (if frame k2 - frame k1 = 0 then val k1
   else (val k2 - val k1) / (frame k2 - frame k1) * t + (val k1 - (val k2 - val k1) / (frame k2 - frame k1) * frame k1))"
  by (simp add: getValue_def slope_def truediv_def Let_def)

lemma intervalLoop_shape:
  "intervalLoop h ks t = Some p \<Longrightarrow> \<exists>a b. p = (Some a, Some b) \<and> a \<in> set ks \<and> b \<in> set ks"
  by (induction h ks t rule: intervalLoop.induct) (auto split: if_splits)

lemma interval_shape:
  "interval h ks t = Some p \<Longrightarrow> (ks = [] \<and> p = (None, None)) \<or> (ks \<noteq> [] \<and> (\<exists>a b. p = (Some a, Some b) \<and> a \<in> set ks \<and> b \<in> set ks))"
  by (auto simp: interval_def split: if_splits dest: intervalLoop_shape)

lemma interpolatedValues_error:
  "interpolatedValues h others keys = Inl e \<Longrightarrow> e = TypeError"
proof (induction keys)
  case Nil
  then show ?case by simp
next
  case (Cons key keys)
  show ?case
  proof (cases "interval h others (frame (h key))")
    case None
    with Cons.prems show ?thesis by simp
  next
    case (Some p)
    from interval_shape [OF Some] Some Cons show ?thesis
      by (auto simp: getValue_total split: sum.splits)
  qed
qed

lemma interpolatedValues_Nil_others: "interpolatedValues h [] keys = Inr []"
  by (induction keys) (simp_all add: interval_def)

lemma frame_addValues: "frame (addValues kvs h k) = frame (h k)"
  by (induction kvs arbitrary: h) auto

section \<open>Errors and empty curves\<close>

text \<open>
  C4. On two non-empty lists, \<^verbatim>\<open>addKeyframes\<close> raises \<^verbatim>\<open>ValueError\<close> exactly when
  the first inserted key has a later frame than the first next key; and when one of the
  lists is empty the call returns normally.
\<close>

theorem addKeyframes_ValueError_iff:
  "(insertedKeys w \<noteq> [] \<and> nextKeys w \<noteq> [] \<longrightarrow>
      (fst (addKeyframes w) = Inl ValueError
        \<longleftrightarrow> frame (heap w (insertedKeys w ! 0)) > frame (heap w (nextKeys w ! 0))))
   \<and> (insertedKeys w = [] \<or> nextKeys w = [] \<longrightarrow> fst (addKeyframes w) = Inr ())"
proof -
  have a: "fst (addKeyframes w) = Inl ValueError \<longleftrightarrow> findOverlap (heap w) (insertedKeys w) (nextKeys w) = Inl ValueError"
    by (auto simp: addKeyframes_def Let_def split: sum.splits dest: interpolatedValues_error)
  have b: "fst (addKeyframes w) = Inr ()" if "insertedKeys w = [] \<or> nextKeys w = []"
    using that by (auto simp: addKeyframes_def findOverlap_def Let_def interpolatedValues_Nil_others)
  show ?thesis using a b by (auto simp: findOverlap_def)
qed

theorem addKeyframes_ValueError_iff_witness:
  "fst (addKeyframes backwardsWorld) = Inl ValueError
    \<and> fst (addKeyframes mainWorld) \<noteq> Inl ValueError
    \<and> fst (addKeyframes emptyNextWorld) = Inr ()"
  using addKeyframes_ValueError_iff [of backwardsWorld] addKeyframes_ValueError_iff [of mainWorld]
    addKeyframes_ValueError_iff [of emptyNextWorld]
  by (simp add: backwardsWorld_def mainWorld_def emptyNextWorld_def newWorld_def K_def)

text \<open>
  C9. When \<^verbatim>\<open>addKeyframes\<close> raises \<^verbatim>\<open>ValueError\<close>, the error comes from
  \<^verbatim>\<open>findOverlap\<close>, and the call leaves the objects and both lists as they were.
\<close>

theorem addKeyframes_ValueError_unchanged:
  assumes "fst (addKeyframes w) = Inl ValueError"
  shows "findOverlap (heap w) (insertedKeys w) (nextKeys w) = Inl ValueError
     \<and> snd (addKeyframes w) = w"
  using assms
  by (auto simp: addKeyframes_def Let_def split: sum.splits dest: interpolatedValues_error)

theorem addKeyframes_ValueError_unchanged_witness:
  "findOverlap (heap backwardsWorld) (insertedKeys backwardsWorld) (nextKeys backwardsWorld)
      = Inl ValueError
    \<and> snd (addKeyframes backwardsWorld) = backwardsWorld"
  using addKeyframes_ValueError_unchanged [OF backwardsWorld_result] .

text \<open>
  C7. Merging a curve with an empty curve returns normally, changes no object (so no
  sample's value), and leaves in the inserted list the same references, stably sorted
  by frame; when the list was already in ascending order, nothing at all changes.
\<close>

theorem addKeyframes_empty_next:
  assumes "nextKeys w = []"
  shows "fst (addKeyframes w) = Inr ()
    \<and> heap (snd (addKeyframes w)) = heap w
    \<and> nextKeys (snd (addKeyframes w)) = []
    \<and> insertedKeys (snd (addKeyframes w)) = sort_key (\<lambda>k. frame (heap w k)) (insertedKeys w)
    \<and> mset (insertedKeys (snd (addKeyframes w))) = mset (insertedKeys w)
    \<and> (ascending (heap w) (insertedKeys w) \<longrightarrow> snd (addKeyframes w) = w)"
proof -
  have "addKeyframes w = (Inr (), w\<lparr>insertedKeys := sort_key (\<lambda>k. frame (heap w k)) (insertedKeys w)\<rparr>)"
    using assms by (simp add: addKeyframes_def findOverlap_def Let_def)
  then show ?thesis using assms
    by (simp add: ascending_def sort_key_id_if_sorted)
qed

theorem addKeyframes_empty_next_witness:
  "fst (addKeyframes emptyNextWorld) = Inr ()
    \<and> heap (snd (addKeyframes emptyNextWorld)) = heap emptyNextWorld
    \<and> insertedKeys (snd (addKeyframes emptyNextWorld)) = [0, 1, 2]
    \<and> snd (addKeyframes emptyNextWorld) = emptyNextWorld"
proof -
  have n: "nextKeys emptyNextWorld = []"
    by (simp add: emptyNextWorld_def newWorld_def)
  have a: "ascending (heap emptyNextWorld) (insertedKeys emptyNextWorld)"
    by (simp add: emptyNextWorld_def newWorld_def K_def ascending_def)
  have i: "insertedKeys emptyNextWorld = [0, 1, 2]"
    by (simp add: emptyNextWorld_def newWorld_def upt_rec)
  show ?thesis using addKeyframes_empty_next [OF n] a i by simp
qed

section \<open>Length and order of the result\<close>

text \<open>
  C6. When \<^verbatim>\<open>addKeyframes\<close> returns normally, the inserted list is in ascending
  order of frame (frames do not decrease), and it is as long as the inserted list and
  the next list were together.
\<close>

theorem addKeyframes_sorted_length:
  assumes "fst (addKeyframes w) = Inr ()"
  shows "ascending (heap (snd (addKeyframes w))) (insertedKeys (snd (addKeyframes w)))
    \<and> length (insertedKeys (snd (addKeyframes w))) = length (insertedKeys w) + length (nextKeys w)"
  using assms
  by (auto simp: addKeyframes_def Let_def ascending_def split: sum.splits)

theorem addKeyframes_sorted_length_witness:
  "ascending (heap (snd (addKeyframes mainWorld))) (insertedKeys (snd (addKeyframes mainWorld)))
    \<and> length (insertedKeys (snd (addKeyframes mainWorld))) = 8"
  using addKeyframes_sorted_length [OF mainWorld_result(1)]
  by (simp add: mainWorld_def newWorld_def)

section \<open>The overlap\<close>

lemma dropWhile_Cons_not:
  "dropWhile P xs = y # ys \<Longrightarrow> \<not> P y \<and> y \<in> set xs"
  by (induction xs) (auto split: if_splits)

lemma overlapLoop_eq:
  "overlapLoop h B xs ov acc =
     acc @ takeWhile (\<lambda>k. frame (h k) > frame (h (B ! 0))) xs
       @ (case dropWhile (\<lambda>k. frame (h k) > frame (h (B ! 0))) xs of
            [] \<Rightarrow> []
          | k # _ \<Rightarrow> if ov \<or> takeWhile (\<lambda>k. frame (h k) > frame (h (B ! 0))) xs \<noteq> [] then [k] else [])"
  by (induction xs arbitrary: ov acc) (auto split: list.splits dest: dropWhile_Cons_not)

text \<open>
  C10. On two non-empty lists whose first frames are in order, \<^verbatim>\<open>findOverlap\<close>
  returns a list that is empty or has at least two keys, never exactly one. (The lists
  need not be sorted for this.)
\<close>

theorem findOverlap_not_single:
  assumes "A \<noteq> []" and "B \<noteq> []" and "frame (h (A ! 0)) \<le> frame (h (B ! 0))"
  shows "\<exists>overlap. findOverlap h A B = Inr overlap \<and> (overlap = [] \<or> 2 \<le> length overlap)"
proof -
  let ?P = "\<lambda>k. frame (h k) > frame (h (B ! 0))"
  have "A ! 0 = last (rev A)" using assms(1) by (simp add: last_rev hd_conv_nth)
  then have "\<not> ?P (last (rev A))" using assms(3) by simp
  moreover have "rev A \<noteq> []" using assms(1) by simp
  ultimately have "dropWhile ?P (rev A) \<noteq> []"
    by (metis dropWhile_eq_Nil_conv last_in_set)
  then obtain k ks where "dropWhile ?P (rev A) = k # ks" by (cases "dropWhile ?P (rev A)") auto
  then have "overlapLoop h B (rev A) False [] =
     (if takeWhile ?P (rev A) = [] then [] else takeWhile ?P (rev A) @ [k])"
    by (simp add: overlapLoop_eq)
  then show ?thesis using assms
    by (cases "takeWhile ?P (rev A)") (auto simp: findOverlap_def)
qed

theorem findOverlap_not_single_witness:
  "findOverlap (heap mainWorld) [0, 1, 2, 3] [4, 5, 6, 7] = Inr [0, 1, 2, 3]"
  using findOverlap_not_single [of "[0, 1, 2, 3]" "[4, 5, 6, 7]" "heap mainWorld"]
  by (simp add: mainWorld_def newWorld_def K_def findOverlap_def)

lemma sorted_filter_split:
  "sorted (map f xs) \<Longrightarrow> xs = filter (\<lambda>k. \<not> f k > (b::rat)) xs @ filter (\<lambda>k. f k > b) xs"
proof (induction xs)
  case Nil
  then show ?case by simp
next
  case (Cons x xs)
  show ?case
  proof (cases "f x > b")
    case True
    with Cons.prems have "\<forall>y \<in> set xs. f y > b" by auto
    then have "filter (\<lambda>k. \<not> f k > b) xs = []" "filter (\<lambda>k. f k > b) xs = xs"
      by (simp_all add: filter_empty_conv filter_id_conv)
    with True show ?thesis by simp
  next
    case False
    with Cons show ?thesis by simp
  qed
qed

lemma ascending_split:
  assumes "A \<noteq> []" and "ascending h A" and "frame (h (A ! 0)) \<le> b"
  shows "\<exists>nl lt. A = nl @ lt \<and> nl \<noteq> []
     \<and> filter (\<lambda>k. \<not> frame (h k) > b) A = nl \<and> filter (\<lambda>k. frame (h k) > b) A = lt"
proof -
  have "A ! 0 \<in> set A" using assms(1) by simp
  then have "filter (\<lambda>k. \<not> frame (h k) > b) A \<noteq> []"
    using assms(3) by (auto simp: filter_empty_conv not_less intro!: bexI [of _ "A ! 0"])
  then show ?thesis
    using assms(2) sorted_filter_split [of "\<lambda>k. frame (h k)" A b]
    by (simp add: ascending_def)
qed

lemma overlapSpec_split:
  assumes "A \<noteq> []" and "ascending h A" and "frame (h (A ! 0)) \<le> frame (h (B ! 0))"
  shows "\<exists>pre k lt. A = pre @ k # lt
     \<and> (\<forall>x \<in> set pre. frame (h x) \<le> frame (h (B ! 0)))
     \<and> frame (h k) \<le> frame (h (B ! 0))
     \<and> (\<forall>x \<in> set lt. frame (h x) > frame (h (B ! 0)))
     \<and> overlapSpec h A B = (if lt = [] then [] else k # lt)"
proof -
  let ?b = "frame (h (B ! 0))"
  from ascending_split [OF assms] obtain nl lt where A: "A = nl @ lt" and nl: "nl \<noteq> []"
    and fnl: "filter (\<lambda>k. \<not> frame (h k) > ?b) A = nl"
    and flt: "filter (\<lambda>k. frame (h k) > ?b) A = lt" by blast
  have "\<forall>x \<in> set (filter (\<lambda>k. \<not> frame (h k) > ?b) A). \<not> frame (h x) > ?b" by simp
  then have "\<forall>x \<in> set nl. \<not> frame (h x) > ?b" unfolding fnl .
  then have 1: "\<forall>x \<in> set (butlast nl). frame (h x) \<le> ?b" "frame (h (last nl)) \<le> ?b"
    using nl by (auto simp: not_less dest: in_set_butlastD)
  have "\<forall>x \<in> set (filter (\<lambda>k. frame (h k) > ?b) A). frame (h x) > ?b" by simp
  then have 2: "\<forall>x \<in> set lt. frame (h x) > ?b" unfolding flt .
  have 3: "A = butlast nl @ last nl # lt" using nl unfolding A by simp
  have 4: "overlapSpec h A B = (if lt = [] then [] else last nl # lt)"
    by (simp add: overlapSpec_def fnl flt)
  from 1 2 3 4 show ?thesis by blast
qed

lemma findOverlap_overlapSpec:
  assumes "A \<noteq> []" and "B \<noteq> []" and "ascending h A"
    and "frame (h (A ! 0)) \<le> frame (h (B ! 0))"
  shows "findOverlap h A B = Inr (overlapSpec h A B)"
proof -
  let ?P = "\<lambda>k. frame (h k) > frame (h (B ! 0))"
  from overlapSpec_split [OF assms(1,3,4)] obtain pre k lt where A: "A = pre @ k # lt"
    and k: "\<not> ?P k" and lt: "\<forall>x \<in> set lt. ?P x"
    and ov: "overlapSpec h A B = (if lt = [] then [] else k # lt)" by (auto simp: not_less)
  have revA: "rev A = rev lt @ k # rev pre" unfolding A by simp
  have tw: "takeWhile ?P (rev A) = rev lt"
    unfolding revA using k lt by (subst takeWhile_append2) auto
  have dw: "dropWhile ?P (rev A) = k # rev pre"
    unfolding revA using k lt by (subst dropWhile_append2) auto
  have "overlapLoop h B (rev A) False [] = (if lt = [] then [] else rev lt @ [k])"
    by (simp add: overlapLoop_eq tw dw)
  then show ?thesis using assms(1,2,4)
    by (simp add: findOverlap_def ov)
qed

text \<open>
  C5. For two non-empty lists with the first one in ascending order and the first
  frames in order, \<^verbatim>\<open>findOverlap\<close> returns the overlap as the specification describes
  it. The first list splits into the keys up to a boundary key \<open>k\<close>, all of them not
  later than the second list's first frame, and the keys after it, all of them strictly
  later; the result is \<open>k\<close> followed by the later keys when there is a later key, and
  empty otherwise. So the result is a tail of the first list, in ascending order, and it
  is empty when the last frame of the first list is not later than the second list's
  first frame.
\<close>

theorem findOverlap_trailing:
  assumes "A \<noteq> []" and "B \<noteq> []" and "ascending h A"
    and "frame (h (A ! 0)) \<le> frame (h (B ! 0))"
  shows "findOverlap h A B = Inr (overlapSpec h A B)
    \<and> (\<exists>pre k lt. A = pre @ k # lt
         \<and> (\<forall>x \<in> set pre. frame (h x) \<le> frame (h (B ! 0)))
         \<and> frame (h k) \<le> frame (h (B ! 0))
         \<and> (\<forall>x \<in> set lt. frame (h x) > frame (h (B ! 0)))
         \<and> overlapSpec h A B = (if lt = [] then [] else k # lt))
    \<and> ascending h (overlapSpec h A B)
    \<and> (frame (h (last A)) \<le> frame (h (B ! 0)) \<longrightarrow> findOverlap h A B = Inr [])"
proof -
  let ?b = "frame (h (B ! 0))"
  have fo: "findOverlap h A B = Inr (overlapSpec h A B)"
    using assms by (rule findOverlap_overlapSpec)
  from overlapSpec_split [OF assms(1,3,4)] obtain pre k lt where A: "A = pre @ k # lt"
    and pre: "\<forall>x \<in> set pre. frame (h x) \<le> ?b" and k: "frame (h k) \<le> ?b"
    and lt: "\<forall>x \<in> set lt. frame (h x) > ?b"
    and ov: "overlapSpec h A B = (if lt = [] then [] else k # lt)" by blast
  have "sorted (map (\<lambda>k. frame (h k)) (pre @ k # lt))"
    using assms(3) by (simp add: ascending_def A)
  then have "sorted (map (\<lambda>k. frame (h k)) (k # lt))"
    by (simp add: sorted_append)
  then have asc: "ascending h (overlapSpec h A B)"
    by (simp add: ov ascending_def)
  have "lt = []" if "frame (h (last A)) \<le> ?b"
  proof (rule ccontr)
    assume "lt \<noteq> []"
    then have "last A \<in> set lt" by (simp add: A)
    with lt that show False by fastforce
  qed
  then have "frame (h (last A)) \<le> ?b \<longrightarrow> findOverlap h A B = Inr []"
    by (simp add: fo ov)
  with fo A pre k lt ov asc show ?thesis by blast
qed

theorem findOverlap_trailing_witness:
  "findOverlap (heap mainWorld) [1, 2, 3] [6, 7] = Inr [2, 3]
    \<and> overlapSpec (heap mainWorld) [1, 2, 3] [6, 7] = [2, 3]"
  using findOverlap_trailing [of "[1, 2, 3]" "[6, 7]" "heap mainWorld"]
  by (simp add: mainWorld_def newWorld_def K_def ascending_def overlapSpec_def)

section \<open>The piecewise-linear function of a curve\<close>

lemma curveAt_after_last:
  "sorted (map frame xs) \<Longrightarrow> xs \<noteq> [] \<Longrightarrow> frame (last xs) < t \<Longrightarrow> curveAt xs t = val (last xs)"
proof (induction xs t rule: curveAt.induct)
  case (3 k1 k2 ks t)
  have "last (k2 # ks) \<in> set (k2 # ks)" by (rule last_in_set) simp
  then have "frame k1 \<le> frame (last (k2 # ks))" "frame k2 \<le> frame (last (k2 # ks))"
    using "3.prems"(1) by (auto simp del: last.simps)
  with "3.prems" have "\<not> t \<le> frame k1" "\<not> t \<le> frame k2" by auto
  with 3 show ?case by simp
qed simp_all

lemma curveAt_at_sample:
  "sorted (map frame xs) \<Longrightarrow> \<exists>x \<in> set xs. frame x = t
    \<Longrightarrow> \<forall>x \<in> set xs. frame x = t \<longrightarrow> val x = v \<Longrightarrow> curveAt xs t = v"
proof (induction xs t rule: curveAt.induct)
  case (1 t)
  then show ?case by simp
next
  case (2 k t)
  then show ?case by simp
next
  case (3 k1 k2 ks t)
  show ?case
  proof (cases "t \<le> frame k1")
    case True
    with "3.prems" have "frame k1 = t" by auto
    with "3.prems" True show ?thesis by simp
  next
    case False
    note nk1 = this
    show ?thesis
    proof (cases "t \<le> frame k2")
      case True
      with "3.prems" nk1 have "frame k2 = t" by auto
      moreover from this nk1 have "frame k2 - frame k1 \<noteq> 0" by auto
      ultimately show ?thesis using "3.prems" nk1 by simp
    next
      case False
      with nk1 "3.prems" have "\<exists>x \<in> set (k2 # ks). frame x = t" by auto
      with "3.IH" [OF nk1 False] "3.prems" nk1 False show ?thesis by simp
    qed
  qed
qed

lemma curveAt_sample:
  assumes "sorted_wrt (<) (map frame xs)" and "x \<in> set xs"
  shows "curveAt xs (frame x) = val x"
proof (rule curveAt_at_sample)
  show "sorted (map frame xs)" using assms(1) by (simp add: strict_sorted_iff)
  show "\<exists>y \<in> set xs. frame y = frame x" using assms(2) by auto
  have "inj_on frame (set xs)"
    using assms(1) by (simp add: strict_sorted_iff distinct_map)
  then show "\<forall>y \<in> set xs. frame y = frame x \<longrightarrow> val y = val x"
    using assms(2) by (auto dest: inj_onD)
qed

lemma curveAt_drop_prefix:
  "sorted_wrt (<) (map frame (xs @ ys)) \<Longrightarrow> ys \<noteq> [] \<Longrightarrow> frame (hd ys) \<le> t
    \<Longrightarrow> curveAt (xs @ ys) t = curveAt ys t"
proof (induction xs)
  case Nil
  then show ?case by simp
next
  case (Cons x xs)
  show ?case
  proof (cases xs)
    case Nil
    obtain y ys' where ys: "ys = y # ys'" using Cons.prems(2) by (cases ys) auto
    have lt: "frame x < frame y" using Cons.prems(1) Nil ys by simp
    show ?thesis
    proof (cases "t \<le> frame y")
      case True
      with Cons.prems(3) ys have "t = frame y" by simp
      moreover have "curveAt (y # ys') (frame y) = val y" by (cases ys') simp_all
      ultimately show ?thesis using Nil ys lt by simp
    next
      case False
      with Nil ys lt show ?thesis by simp
    qed
  next
    case (Cons x' xs')
    have "frame x < frame x'" "frame x' < frame (hd ys)"
      using Cons.prems(1,2) Cons by (auto simp: hd_in_set)
    with Cons.prems(3) have "\<not> t \<le> frame x" "\<not> t \<le> frame x'" by auto
    then have "curveAt (x # xs @ ys) t = curveAt (xs @ ys) t" using Cons by simp
    with Cons.IH Cons.prems show ?thesis by simp
  qed
qed

lemma line_through:
  fixes a d t x1 :: rat
  shows "a * t / d - a * x1 / d = a * (t - x1) / d"
  by (simp add: right_diff_distrib diff_divide_distrib)

lemma intervalLoop_curveAt:
  "sorted_wrt (<) (map (\<lambda>k. frame (h k)) ks) \<Longrightarrow> ks \<noteq> [] \<Longrightarrow> frame (h (hd ks)) \<le> t
    \<Longrightarrow> intervalLoop h ks t = Some (Some a, Some b)
    \<Longrightarrow> getValue (h a) (h b) t = Inr (curveAt (map h ks) t)"
proof (induction h ks t rule: intervalLoop.induct)
  case (1 h k k' ks fr)
  have lt: "frame (h k) < frame (h k')" using "1.prems"(1) by simp
  show ?case
  proof (cases "fr \<le> frame (h k')")
    case True
    with "1.prems" have ab: "a = k" "b = k'" by auto
    from lt have nz: "frame (h k') - frame (h k) \<noteq> 0" by simp
    show ?thesis
    proof (cases "fr \<le> frame (h k)")
      case True
      with "1.prems"(3) have "fr = frame (h k)" by simp
      with nz show ?thesis unfolding ab by (simp add: getValue_total)
    next
      case False
      with True nz show ?thesis unfolding ab by (simp add: getValue_total line_through)
    qed
  next
    case False
    with lt have "\<not> fr \<le> frame (h k)" by simp
    with False "1.prems" "1.IH" show ?thesis by simp
  qed
qed simp_all

lemma interval_curveAt:
  assumes "strictlyAscending h ks" and "interval h ks t = Some (Some a, Some b)"
  shows "getValue (h a) (h b) t = Inr (curveAt (map h ks) t)"
proof -
  from assms(2) have ne: "ks \<noteq> []" by (auto simp: interval_def)
  then obtain k ks' where ks: "ks = k # ks'" by (cases ks) auto
  consider (left) "t < frame (h (ks ! 0))"
    | (right) "\<not> t < frame (h (ks ! 0))" "frame (h (last ks)) < t"
    | (inside) "\<not> t < frame (h (ks ! 0))" "\<not> frame (h (last ks)) < t" by blast
  then show ?thesis
  proof cases
    case left
    with assms(2) ne have "a = ks ! 0" "b = ks ! 0" by (auto simp: interval_def)
    moreover have "curveAt (map h ks) t = val (h k)"
      using left ks by (cases ks') simp_all
    ultimately show ?thesis using ks by (simp add: getValue_total)
  next
    case right
    with assms(2) ne have "a = last ks" "b = last ks" by (auto simp: interval_def)
    moreover have "curveAt (map h ks) t = val (last (map h ks))"
      using assms(1) ne right(2)
      by (intro curveAt_after_last) (simp_all add: strictlyAscending_def strict_sorted_iff last_map comp_def)
    ultimately show ?thesis using ne by (simp add: getValue_total last_map)
  next
    case inside
    with assms(2) ne have "intervalLoop h ks t = Some (Some a, Some b)"
      by (auto simp: interval_def)
    moreover have "frame (h (hd ks)) \<le> t" using inside(1) ne by (simp add: hd_conv_nth)
    ultimately show ?thesis using assms(1) ne
      by (intro intervalLoop_curveAt) (simp_all add: strictlyAscending_def)
  qed
qed

section \<open>The heap after a call\<close>

lemma interpolatedValues_curveAt:
  assumes "others \<noteq> []" and "strictlyAscending h others"
  shows "interpolatedValues h others keys = Inr vs \<Longrightarrow> vs = map (interpolated h others) keys"
proof (induction keys arbitrary: vs)
  case Nil
  then show ?case by simp
next
  case (Cons key keys)
  show ?case
  proof (cases "interval h others (frame (h key))")
    case None
    with Cons.prems show ?thesis by simp
  next
    case (Some p)
    from interval_shape [OF Some] assms(1) obtain a b where p: "p = (Some a, Some b)" by auto
    from interval_curveAt [OF assms(2) Some [unfolded p]]
    have v: "getValue (h a) (h b) (frame (h key)) = Inr (curveAt (map h others) (frame (h key)))" .
    from Cons.prems obtain rest where rest: "interpolatedValues h others keys = Inr rest"
      and vs: "vs = interpolated h others key # rest"
      by (auto simp: Some p v interpolated_def split: sum.splits)
    from Cons.IH [OF rest] vs show ?thesis by simp
  qed
qed

lemma addValues_other:
  "key \<notin> fst ` set kvs \<Longrightarrow> addValues kvs h key = h key"
  by (induction kvs arbitrary: h) auto

lemma addValues_zip_map:
  "distinct keys \<Longrightarrow> key \<in> set keys
    \<Longrightarrow> addValues (zip keys (map g keys)) h key = (h key)\<lparr>val := val (h key) + val (g key)\<rparr>"
proof (induction keys arbitrary: h)
  case Nil
  then show ?case by simp
next
  case (Cons k keys)
  show ?case
  proof (cases "key = k")
    case True
    with Cons.prems have "key \<notin> fst ` set (zip keys (map g keys))"
      by (auto dest: set_zip_leftD)
    from addValues_other [OF this] True show ?thesis by simp
  next
    case False
    with Cons show ?thesis by simp
  qed
qed

lemma addValues_zip_map_other:
  "key \<notin> set keys \<Longrightarrow> addValues (zip keys (map g keys)) h key = h key"
  by (rule addValues_other) (auto dest: set_zip_leftD)

lemma strictlyAscending_distinct: "strictlyAscending h keys \<Longrightarrow> distinct keys"
  by (simp add: strictlyAscending_def strict_sorted_iff distinct_map)

lemma strictlyAscending_ascending: "strictlyAscending h keys \<Longrightarrow> ascending h keys"
  by (simp add: strictlyAscending_def ascending_def strict_sorted_iff)

lemma strictlyAscending_curve:
  "strictlyAscending h keys \<Longrightarrow> sorted_wrt (<) (map frame (curve h keys))"
  by (simp add: strictlyAscending_def curve_def comp_def)

text \<open>The final heap of a call that returns, when there is an overlap.\<close>

lemma addKeyframes_returns:
  assumes ne: "insertedKeys w \<noteq> []" "nextKeys w \<noteq> []"
    and asc: "strictlyAscending (heap w) (insertedKeys w)" "strictlyAscending (heap w) (nextKeys w)"
    and ord: "frame (heap w (insertedKeys w ! 0)) \<le> frame (heap w (nextKeys w ! 0))"
    and ret: "fst (addKeyframes w) = Inr ()"
    and ov: "overlapSpec (heap w) (insertedKeys w) (nextKeys w) = ov" "ov \<noteq> []"
    and so: "strictlyAscending (heap w) ov"
  shows "snd (addKeyframes w) =
     (let h1 = addValues (zip ov (map (interpolated (heap w) (nextKeys w)) ov)) (heap w);
          h2 = addValues (zip (nextKeys w) (map (interpolated (heap w) ov) (nextKeys w))) h1
      in \<lparr>heap = h2,
          insertedKeys = sort_key (\<lambda>k. frame (h2 k)) (insertedKeys w @ nextKeys w),
          nextKeys = nextKeys w\<rparr>)"
proof -
  have fo: "findOverlap (heap w) (insertedKeys w) (nextKeys w) = Inr ov"
    using findOverlap_overlapSpec [OF ne strictlyAscending_ascending [OF asc(1)] ord] ov(1) by simp
  from ret obtain nvs where nvs: "interpolatedValues (heap w) ov (nextKeys w) = Inr nvs"
    by (auto simp: addKeyframes_def fo split: sum.splits)
  from ret obtain ivs where ivs: "interpolatedValues (heap w) (nextKeys w) ov = Inr ivs"
    by (auto simp: addKeyframes_def fo nvs split: sum.splits)
  have "nvs = map (interpolated (heap w) ov) (nextKeys w)"
    using interpolatedValues_curveAt [OF ov(2) so nvs] .
  moreover have "ivs = map (interpolated (heap w) (nextKeys w)) ov"
    using interpolatedValues_curveAt [OF ne(2) asc(2) ivs] .
  ultimately show ?thesis
    by (simp add: addKeyframes_def fo nvs ivs Let_def)
qed

section \<open>The merged curve\<close>

text \<open>
  The sum at every sample frame from the start of the next curve on. Beyond the last
  sample of a curve, \<^const>\<open>curveAt\<close> continues it with its last value.
\<close>

lemma sum_from_next_start:
  assumes ne: "insertedKeys w \<noteq> []" "nextKeys w \<noteq> []"
    and asc: "strictlyAscending (heap w) (insertedKeys w)" "strictlyAscending (heap w) (nextKeys w)"
    and ord: "frame (heap w (insertedKeys w ! 0)) \<le> frame (heap w (nextKeys w ! 0))"
    and ovl: "frame (heap w (nextKeys w ! 0)) < frame (heap w (last (insertedKeys w)))"
    and sep: "set (insertedKeys w) \<inter> set (nextKeys w) = {}"
    and ret: "fst (addKeyframes w) = Inr ()"
    and smp: "t \<in> (\<lambda>k. frame (heap w k)) ` (set (insertedKeys w) \<union> set (nextKeys w))"
    and dom: "frame (heap w (nextKeys w ! 0)) \<le> t"
  shows "curveAt (curve (heap (snd (addKeyframes w))) (insertedKeys (snd (addKeyframes w)))) t
       = curveAt (curve (heap w) (insertedKeys w)) t + curveAt (curve (heap w) (nextKeys w)) t
     \<and> (\<forall>k \<in> set (insertedKeys (snd (addKeyframes w))).
           frame (heap (snd (addKeyframes w)) k) = t \<longrightarrow>
           val (heap (snd (addKeyframes w)) k)
             = curveAt (curve (heap w) (insertedKeys w)) t + curveAt (curve (heap w) (nextKeys w)) t)"
proof -
  define h where "h = heap w"
  define ins where "ins = insertedKeys w"
  define nxt where "nxt = nextKeys w"
  define b where "b = frame (h (nxt ! 0))"
  note defs = h_def ins_def nxt_def b_def
  have sins: "sorted_wrt (<) (map (\<lambda>k. frame (h k)) ins)"
    and snxt: "sorted_wrt (<) (map (\<lambda>k. frame (h k)) nxt)"
    using asc by (simp_all add: defs strictlyAscending_def)
  \<comment> \<open>the overlap is a non-empty tail of the inserted keys\<close>
  from overlapSpec_split [OF ne(1) strictlyAscending_ascending [OF asc(1)] ord]
  obtain pre k lt where ins: "ins = pre @ k # lt"
    and pre: "\<forall>x \<in> set pre. frame (h x) \<le> b" and k: "frame (h k) \<le> b"
    and ov: "overlapSpec h ins nxt = (if lt = [] then [] else k # lt)"
    unfolding defs by blast
  have lt: "lt \<noteq> []"
  proof
    assume "lt = []"
    then have "last ins = k" by (simp add: ins)
    with ovl k show False by (simp add: defs)
  qed
  define ov where "ov = k # lt"
  have ovs: "overlapSpec h ins nxt = ov" "ov \<noteq> []" "ins = pre @ ov"
    using lt ov ins by (simp_all add: ov_def)
  have sov: "strictlyAscending h ov"
    using sins by (simp add: ovs(3) strictlyAscending_def sorted_wrt_append)
  have prelt: "\<forall>x \<in> set pre. frame (h x) < frame (h k)"
    using sins by (auto simp: ins sorted_wrt_append)
  have dis: "set ov \<inter> set nxt = {}" using sep ovs(3) by (auto simp: defs)
  \<comment> \<open>the heap after the call\<close>
  define h1 where "h1 = addValues (zip ov (map (interpolated h nxt) ov)) h"
  define h2 where "h2 = addValues (zip nxt (map (interpolated h ov) nxt)) h1"
  have w': "snd (addKeyframes w) =
      \<lparr>heap = h2, insertedKeys = sort_key (\<lambda>k. frame (h2 k)) (ins @ nxt), nextKeys = nxt\<rparr>"
    using addKeyframes_returns [OF ne asc ord ret ovs(1,2) [unfolded defs] sov [unfolded defs]]
    by (simp add: Let_def h1_def h2_def defs)
  have fr2: "frame (h2 r) = frame (h r)" for r
    by (simp add: h2_def h1_def frame_addValues)
  have vnxt: "val (h2 r) = val (h r) + curveAt (map h ov) (frame (h r))" if "r \<in> set nxt" for r
  proof -
    have "r \<notin> set ov" using that dis by auto
    then have "h1 r = h r" by (simp add: h1_def addValues_zip_map_other)
    moreover have "distinct nxt" using asc(2) by (auto simp: defs dest: strictlyAscending_distinct)
    ultimately show ?thesis using that
      by (simp add: h2_def addValues_zip_map interpolated_def)
  qed
  have vov: "val (h2 r) = val (h r) + curveAt (map h nxt) (frame (h r))" if "r \<in> set ov" for r
  proof -
    have "r \<notin> set nxt" using that dis by auto
    then have "h2 r = h1 r" by (simp add: h2_def addValues_zip_map_other)
    moreover have "distinct ov" using sov by (rule strictlyAscending_distinct)
    ultimately show ?thesis using that
      by (simp add: h1_def addValues_zip_map interpolated_def)
  qed
  \<comment> \<open>the two original curves\<close>
  define A where "A = curveAt (curve h ins) t"
  define B where "B = curveAt (curve h nxt) t"
  have bt: "b \<le> t" using dom by (simp add: defs)
  have A_ov: "curveAt (map h ov) t = A"
  proof -
    have "curveAt (map h pre @ map h ov) t = curveAt (map h ov) t"
    proof (rule curveAt_drop_prefix)
      show "sorted_wrt (<) (map frame (map h pre @ map h ov))"
        using sins by (simp add: ovs(3) comp_def)
      show "map h ov \<noteq> []" by (simp add: ov_def)
      show "frame (hd (map h ov)) \<le> t" using k bt by (simp add: ov_def)
    qed
    then show ?thesis by (simp add: A_def curve_def ovs(3))
  qed
  have A_val: "val (h r) = A" if "r \<in> set ins" "frame (h r) = t" for r
  proof -
    have "curveAt (curve h ins) (frame (h r)) = val (h r)"
      using sins that(1) by (intro curveAt_sample) (simp_all add: curve_def comp_def)
    with that(2) show ?thesis by (simp add: A_def)
  qed
  have B_val: "val (h r) = B" if "r \<in> set nxt" "frame (h r) = t" for r
  proof -
    have "curveAt (curve h nxt) (frame (h r)) = val (h r)"
      using snxt that(1) by (intro curveAt_sample) (simp_all add: curve_def comp_def)
    with that(2) show ?thesis by (simp add: B_def)
  qed
  \<comment> \<open>every sample at \<open>t\<close> holds the sum\<close>
  have sample: "val (h2 r) = A + B" if r: "r \<in> set (ins @ nxt)" and rt: "frame (h r) = t" for r
  proof (cases "r \<in> set nxt")
    case True
    from vnxt [OF True] B_val [OF True rt] A_ov rt show ?thesis by simp
  next
    case False
    with r have rin: "r \<in> set ins" by simp
    have "r \<notin> set pre"
    proof
      assume "r \<in> set pre"
      with prelt have "frame (h r) < frame (h k)" by simp
      with k bt rt show False by simp
    qed
    with rin have "r \<in> set ov" by (simp add: ovs(3))
    from vov [OF this] A_val [OF rin rt] rt show ?thesis by (simp add: B_def curve_def)
  qed
  \<comment> \<open>the merged curve\<close>
  define merged where "merged = curve h2 (sort_key (\<lambda>k. frame (h2 k)) (ins @ nxt))"
  have "curveAt merged t = A + B"
  proof (rule curveAt_at_sample)
    show "sorted (map frame merged)"
      by (simp add: merged_def curve_def comp_def)
    from smp obtain r where "r \<in> set (ins @ nxt)" "frame (h r) = t" by (auto simp: defs)
    then show "\<exists>x \<in> set merged. frame x = t"
      by (auto simp: merged_def curve_def fr2 intro!: bexI [of _ r])
    show "\<forall>x \<in> set merged. frame x = t \<longrightarrow> val x = A + B"
      using sample by (auto simp: merged_def curve_def fr2)
  qed
  moreover have "\<forall>r \<in> set (sort_key (\<lambda>k. frame (h2 k)) (ins @ nxt)). frame (h2 r) = t \<longrightarrow> val (h2 r) = A + B"
    using sample by (auto simp: fr2)
  ultimately show ?thesis
    by (simp add: w' merged_def A_def B_def defs)
qed

text \<open>
  C1 (amended). Take two non-empty curves that share no sample object, each with
  strictly increasing frames, the inserted curve starting no later than the next curve
  and ending strictly later than the next curve starts (so that there is an overlap).
  When \<^verbatim>\<open>addKeyframes\<close> returns normally, then at every frame \<open>t\<close> of a sample of
  either curve that lies within both curves' ranges, the merged curve has the value of
  the original inserted curve at \<open>t\<close> plus the value of the original next curve at
  \<open>t\<close>, exactly; and so has every sample of the merged list with frame \<open>t\<close>.
\<close>

theorem addKeyframes_sum:
  assumes "insertedKeys w \<noteq> []" and "nextKeys w \<noteq> []"
    and "strictlyAscending (heap w) (insertedKeys w)"
    and "strictlyAscending (heap w) (nextKeys w)"
    and "frame (heap w (insertedKeys w ! 0)) \<le> frame (heap w (nextKeys w ! 0))"
    and "frame (heap w (nextKeys w ! 0)) < frame (heap w (last (insertedKeys w)))"
    and "set (insertedKeys w) \<inter> set (nextKeys w) = {}"
    and "fst (addKeyframes w) = Inr ()"
    and "t \<in> (\<lambda>k. frame (heap w k)) ` (set (insertedKeys w) \<union> set (nextKeys w))"
    and "frame (heap w (insertedKeys w ! 0)) \<le> t"
    and "t \<le> frame (heap w (last (insertedKeys w)))"
    and "frame (heap w (nextKeys w ! 0)) \<le> t"
    and "t \<le> frame (heap w (last (nextKeys w)))"
  shows "curveAt (curve (heap (snd (addKeyframes w))) (insertedKeys (snd (addKeyframes w)))) t
       = curveAt (curve (heap w) (insertedKeys w)) t + curveAt (curve (heap w) (nextKeys w)) t
     \<and> (\<forall>k \<in> set (insertedKeys (snd (addKeyframes w))).
           frame (heap (snd (addKeyframes w)) k) = t \<longrightarrow>
           val (heap (snd (addKeyframes w)) k)
             = curveAt (curve (heap w) (insertedKeys w)) t + curveAt (curve (heap w) (nextKeys w)) t)"
  using assms(1-9,12) by (rule sum_from_next_start)

theorem addKeyframes_sum_witness:
  "curveAt (curve (heap (snd (addKeyframes mainWorld))) (insertedKeys (snd (addKeyframes mainWorld)))) 15
       = curveAt (curve (heap mainWorld) (insertedKeys mainWorld)) 15
         + curveAt (curve (heap mainWorld) (nextKeys mainWorld)) 15
     \<and> curveAt (curve (heap (snd (addKeyframes mainWorld))) (insertedKeys (snd (addKeyframes mainWorld)))) 15 = 7
     \<and> curveAt (curve (heap mainWorld) (insertedKeys mainWorld)) 15 = 5
     \<and> curveAt (curve (heap mainWorld) (nextKeys mainWorld)) 15 = 2"
proof -
  have "curveAt (curve (heap (snd (addKeyframes mainWorld))) (insertedKeys (snd (addKeyframes mainWorld)))) 15
       = curveAt (curve (heap mainWorld) (insertedKeys mainWorld)) 15
         + curveAt (curve (heap mainWorld) (nextKeys mainWorld)) 15
     \<and> (\<forall>k \<in> set (insertedKeys (snd (addKeyframes mainWorld))).
           frame (heap (snd (addKeyframes mainWorld)) k) = 15 \<longrightarrow>
           val (heap (snd (addKeyframes mainWorld)) k)
             = curveAt (curve (heap mainWorld) (insertedKeys mainWorld)) 15
               + curveAt (curve (heap mainWorld) (nextKeys mainWorld)) 15)"
  proof (rule addKeyframes_sum)
    show "fst (addKeyframes mainWorld) = Inr ()" by (rule mainWorld_result)
    show "15 \<in> (\<lambda>k. frame (heap mainWorld k)) ` (set (insertedKeys mainWorld) \<union> set (nextKeys mainWorld))"
      by (simp add: mainWorld_def newWorld_def K_def)
  qed (simp_all add: mainWorld_def newWorld_def K_def strictlyAscending_def)
  moreover have "curveAt (curve (heap mainWorld) (insertedKeys mainWorld)) 15 = 5"
    and "curveAt (curve (heap mainWorld) (nextKeys mainWorld)) 15 = 2"
    by (simp_all add: mainWorld_def newWorld_def curve_def K_def)
  ultimately show ?thesis by simp
qed

text \<open>
  Without an overlap the sum is not formed: the inserted curve \<open>(0,0), (5,3)\<close> and
  the next curve \<open>(5,2), (10,0)\<close> are both defined at frame 5, a sample frame of both,
  with values 3 and 2. The merged list is the plain concatenation, and its value at
  frame 5 is 3, not 5.
\<close>

theorem addKeyframes_sum_counterexample:
  "curve (heap touchingWorld) (insertedKeys touchingWorld) = [K 0 0, K 5 3]
    \<and> curve (heap touchingWorld) (nextKeys touchingWorld) = [K 5 2, K 10 0]
    \<and> ascending (heap touchingWorld) (insertedKeys touchingWorld)
    \<and> ascending (heap touchingWorld) (nextKeys touchingWorld)
    \<and> fst (addKeyframes touchingWorld) = Inr ()
    \<and> curve (heap (snd (addKeyframes touchingWorld))) (insertedKeys (snd (addKeyframes touchingWorld)))
        = [K 0 0, K 5 3, K 5 2, K 10 0]
    \<and> curveAt (curve (heap (snd (addKeyframes touchingWorld)))
          (insertedKeys (snd (addKeyframes touchingWorld)))) 5 = 3
    \<and> curveAt (curve (heap touchingWorld) (insertedKeys touchingWorld)) 5
        + curveAt (curve (heap touchingWorld) (nextKeys touchingWorld)) 5 = 5
    \<and> \<not> \<bar>curveAt (curve (heap (snd (addKeyframes touchingWorld)))
              (insertedKeys (snd (addKeyframes touchingWorld)))) 5
          - (curveAt (curve (heap touchingWorld) (insertedKeys touchingWorld)) 5
             + curveAt (curve (heap touchingWorld) (nextKeys touchingWorld)) 5)\<bar> \<le> 1 / 10 ^ 9"
proof -
  have a: "curve (heap touchingWorld) (insertedKeys touchingWorld) = [K 0 0, K 5 3]"
    and b: "curve (heap touchingWorld) (nextKeys touchingWorld) = [K 5 2, K 10 0]"
    by (simp_all add: touchingWorld_def newWorld_def curve_def K_def)
  have c: "ascending (heap touchingWorld) (insertedKeys touchingWorld)"
    "ascending (heap touchingWorld) (nextKeys touchingWorld)"
    by (simp_all add: touchingWorld_def newWorld_def K_def ascending_def)
  show ?thesis
    unfolding a b touchingWorld_result using c by (simp add: K_def)
qed

section \<open>The example of main\<close>

text \<open>
  C2 (amended). On the inserted curve \<open>(0,0), (15,5), (18,5), (33,0)\<close> and the next
  curve \<open>(9,0), (24,5), (27,5), (42,0)\<close>, \<^verbatim>\<open>addKeyframes\<close> returns normally and leaves
  the inserted list as \<open>(0,0), (9,3), (15,7), (18,8), (24,8), (27,7), (33,3), (42,0)\<close>:
  at frame 33 the inserted value 0 and the next curve's value 3 give 3.
\<close>

theorem addKeyframes_main:
  "curve (heap mainWorld) (insertedKeys mainWorld) = [K 0 0, K 15 5, K 18 5, K 33 0]
    \<and> curve (heap mainWorld) (nextKeys mainWorld) = [K 9 0, K 24 5, K 27 5, K 42 0]
    \<and> fst (addKeyframes mainWorld) = Inr ()
    \<and> curve (heap (snd (addKeyframes mainWorld))) (insertedKeys (snd (addKeyframes mainWorld)))
        = [K 0 0, K 9 3, K 15 7, K 18 8, K 24 8, K 27 7, K 33 3, K 42 0]"
proof -
  have a: "curve (heap mainWorld) (insertedKeys mainWorld) = [K 0 0, K 15 5, K 18 5, K 33 0]"
    and b: "curve (heap mainWorld) (nextKeys mainWorld) = [K 9 0, K 24 5, K 27 5, K 42 0]"
    by (simp_all add: mainWorld_def newWorld_def curve_def K_def)
  show ?thesis by (intro conjI a b mainWorld_result(1) mainWorld_result(3))
qed

text \<open>The list with the value \<open>1.2\<close> at frame 33 is not the result.\<close>

theorem addKeyframes_main_counterexample:
  "curve (heap (snd (addKeyframes mainWorld))) (insertedKeys (snd (addKeyframes mainWorld)))
     \<noteq> [K 0 0, K 9 3, K 15 7, K 18 8, K 24 8, K 27 7, K 33 (6 / 5), K 42 0]"
  using mainWorld_result(3) by (simp add: K_def)

section \<open>A next curve of one sample\<close>

text \<open>
  C3 does not hold of the code. For a list of one key and the frame of that key,
  neither of the two early returns of \<^verbatim>\<open>interval\<close> applies and its loop has no pair
  to visit, so \<^verbatim>\<open>interval\<close> returns \<^verbatim>\<open>None\<close>; \<^verbatim>\<open>addKeyframes\<close> then fails to unpack
  it. Here both curves are in ascending order and the inserted curve starts first.
\<close>

theorem addKeyframes_single_next_TypeError:
  "curve (heap singleNextWorld) (insertedKeys singleNextWorld) = [K 0 0, K 5 1, K 10 0]
    \<and> curve (heap singleNextWorld) (nextKeys singleNextWorld) = [K 5 1]
    \<and> ascending (heap singleNextWorld) (insertedKeys singleNextWorld)
    \<and> ascending (heap singleNextWorld) (nextKeys singleNextWorld)
    \<and> interval (heap singleNextWorld) (nextKeys singleNextWorld) 5 = None
    \<and> fst (addKeyframes singleNextWorld) = Inl TypeError"
proof -
  have a: "curve (heap singleNextWorld) (insertedKeys singleNextWorld) = [K 0 0, K 5 1, K 10 0]"
    and b: "curve (heap singleNextWorld) (nextKeys singleNextWorld) = [K 5 1]"
    by (simp_all add: singleNextWorld_def newWorld_def curve_def K_def)
  have c: "ascending (heap singleNextWorld) (insertedKeys singleNextWorld)"
    "ascending (heap singleNextWorld) (nextKeys singleNextWorld)"
    by (simp_all add: singleNextWorld_def newWorld_def K_def ascending_def)
  show ?thesis
    unfolding a b singleNextWorld_result using c by simp
qed

end
